theory Spec2Isabelle
  imports Main "HOL-Library.Word"
begin

section \<open>Bytes, words and the helpers of utils\<close>

text \<open>
  The embedding follows \<^verbatim>\<open>src.ts/abi/coders/abstract-coder.ts\<close>. A \<^verbatim>\<open>Uint8Array\<close> is a
  list of 8-bit words. Byte counts, cursors and chunk indices are natural numbers, and a
  \<^verbatim>\<open>BigNumberish\<close> is a non-negative integer, the only kind of value \<^verbatim>\<open>toBeArray\<close>
  accepts.
\<close>

type_synonym byte = "8 word"
type_synonym bytes = "byte list"

definition WordSize :: nat where
  "WordSize = 32"

definition Padding :: bytes where
  "Padding = replicate WordSize 0"

text \<open>\<^verbatim>\<open>Uint8Array.prototype.slice(start, end)\<close> and \<^verbatim>\<open>slice(start)\<close> for indices that
  are not negative: both ends are clamped to the length.\<close>

definition slice2 :: "bytes \<Rightarrow> nat \<Rightarrow> nat \<Rightarrow> bytes" where
  "slice2 xs start end = take (end - start) (drop start xs)"

definition slice1 :: "bytes \<Rightarrow> nat \<Rightarrow> bytes" where
  "slice1 xs start = drop start xs"

text \<open>
  Modelled from the spec: \<^verbatim>\<open>concat\<close>, \<^verbatim>\<open>getBytesCopy\<close> and \<^verbatim>\<open>hexlify\<close> of
  \<^verbatim>\<open>utils/index.js\<close>, which is not part of the sources at hand. They join byte strings and
  convert between a hex string and a \<^verbatim>\<open>Uint8Array\<close> holding the same bytes; the model
  keeps every byte string as a list of bytes, so the conversions are the identity.
\<close>

definition concat_bytes :: "bytes list \<Rightarrow> bytes" where
  "concat_bytes chunks = concat chunks"

definition getBytesCopy :: "bytes \<Rightarrow> bytes" where
  "getBytesCopy value = value"

text \<open>
  Modelled from the spec: \<^verbatim>\<open>toBeArray\<close> of \<^verbatim>\<open>utils/index.js\<close> (not part of the sources at
  hand), the big-endian byte representation of a non-negative integer, without leading zero
  bytes (so zero is the empty byte string).
\<close>

fun toBeArray :: "nat \<Rightarrow> bytes" where
  "toBeArray n = (if n = 0 then [] else toBeArray (n div 256) @ [of_nat (n mod 256)])"

declare toBeArray.simps [simp del]

text \<open>
  Modelled from the spec: \<^verbatim>\<open>toBigInt\<close> of \<^verbatim>\<open>utils/index.js\<close> (not part of the sources at
  hand), which interprets a byte string as a big-endian unsigned integer.
\<close>

definition toBigInt :: "bytes \<Rightarrow> nat" where
  "toBigInt bs = foldl (\<lambda>acc b. acc * 256 + unat b) 0 bs"

text \<open>\<^verbatim>\<open>Math.ceil(length / WordSize) * WordSize\<close> on a byte count.\<close>

definition alignedLength :: "nat \<Rightarrow> nat" where
  "alignedLength len = ((len + (WordSize - 1)) div WordSize) * WordSize"

text \<open>The error raised by \<^verbatim>\<open>assert(false, message, "BUFFER_OVERRUN", { buffer, length, offset })\<close>.\<close>

datatype error = BUFFER_OVERRUN (err_message: string) (err_buffer: bytes)
  (err_length: nat) (err_offset: nat)

text \<open>The module-level function \<^verbatim>\<open>getValue(value)\<close>: one word, padded on the left.\<close>

definition getValue :: "nat \<Rightarrow> error + bytes" where
  "getValue value =
     (let bytes = toBeArray value in
      if \<not> length bytes \<le> WordSize
      then Inl (BUFFER_OVERRUN ''value out-of-bounds'' bytes WordSize (length bytes))
      else if length bytes \<noteq> WordSize
      then Inr (getBytesCopy (concat_bytes [slice1 Padding (length bytes mod WordSize), bytes]))
      else Inr bytes)"

section \<open>Writer\<close>

text \<open>
  The private fields \<^verbatim>\<open>#data\<close> and \<^verbatim>\<open>#dataLength\<close>. Every method takes the writer and
  returns what the call returns (or the error it raises) together with the writer after the
  call, so that a raise in the middle of a method would show in the state.
\<close>

record Writer =
  w_data :: "bytes list"
  w_dataLength :: nat

definition Writer_new :: Writer where
  "Writer_new = \<lparr>w_data = [], w_dataLength = 0\<rparr>"

definition Writer_data :: "Writer \<Rightarrow> bytes" where
  "Writer_data w = concat_bytes (w_data w)"

definition Writer_length :: "Writer \<Rightarrow> nat" where
  "Writer_length w = w_dataLength w"

definition writeData :: "Writer \<Rightarrow> bytes \<Rightarrow> nat \<times> Writer" where
  "writeData w d =
     (length d, w\<lparr>w_data := w_data w @ [d], w_dataLength := w_dataLength w + length d\<rparr>)"

definition appendWriter :: "Writer \<Rightarrow> Writer \<Rightarrow> nat \<times> Writer" where
  "appendWriter w writer = writeData w (getBytesCopy (Writer_data writer))"

definition writeBytes :: "Writer \<Rightarrow> bytes \<Rightarrow> nat \<times> Writer" where
  "writeBytes w value =
     (let bytes = getBytesCopy value;
          paddingOffset = length bytes mod WordSize;
          bytes = (if paddingOffset \<noteq> 0
                   then getBytesCopy (concat_bytes [bytes, slice1 Padding paddingOffset])
                   else bytes)
      in writeData w bytes)"

definition writeValue :: "Writer \<Rightarrow> nat \<Rightarrow> (error + nat) \<times> Writer" where
  "writeValue w value =
     (case getValue value of
        Inl e \<Rightarrow> (Inl e, w)
      | Inr bytes \<Rightarrow> (let (n, w') = writeData w bytes in (Inr n, w')))"

text \<open>
  \<^verbatim>\<open>writeUpdatableValue\<close> returns a closure over \<^verbatim>\<open>offset\<close>, the index of the reserved
  chunk. The model returns that index; \<open>updateValue offset\<close> is the closure's body. The
  index is always that of an existing chunk, since \<^verbatim>\<open>#data\<close> only grows; where it is not,
  JavaScript would extend the array, which the model leaves out.
\<close>

definition writeUpdatableValue :: "Writer \<Rightarrow> nat \<times> Writer" where
  "writeUpdatableValue w =
     (let offset = length (w_data w)
      in (offset, w\<lparr>w_data := w_data w @ [Padding],
                     w_dataLength := w_dataLength w + WordSize\<rparr>))"

definition updateValue :: "nat \<Rightarrow> Writer \<Rightarrow> nat \<Rightarrow> (error + unit) \<times> Writer" where
  "updateValue offset w value =
     (case getValue value of
        Inl e \<Rightarrow> (Inl e, w)
      | Inr bytes \<Rightarrow> (Inr (), w\<lparr>w_data := (w_data w)[offset := bytes]\<rparr>))"

text \<open>
  A use of a writer: a sequence of calls. \<open>Callback k v\<close> invokes the closure returned by
  the \<open>k\<close>-th \<^verbatim>\<open>writeUpdatableValue\<close> so far with the value \<open>v\<close>. A call that raises leaves
  the state as the method left it and the caller goes on.
\<close>

datatype op = AppendWriter Writer | WriteBytes bytes | WriteValue nat
  | WriteUpdatableValue | Callback nat nat

record session =
  writer :: Writer
  callbacks :: "nat list"

definition session_new :: session where
  "session_new = \<lparr>writer = Writer_new, callbacks = []\<rparr>"

fun step :: "session \<Rightarrow> op \<Rightarrow> session" where
  "step s (AppendWriter other) = s\<lparr>writer := snd (appendWriter (writer s) other)\<rparr>"
| "step s (WriteBytes value) = s\<lparr>writer := snd (writeBytes (writer s) value)\<rparr>"
| "step s (WriteValue value) = s\<lparr>writer := snd (writeValue (writer s) value)\<rparr>"
| "step s WriteUpdatableValue =
     (let (offset, w') = writeUpdatableValue (writer s)
      in s\<lparr>writer := w', callbacks := callbacks s @ [offset]\<rparr>)"
| "step s (Callback k value) =
     (if k < length (callbacks s)
      then s\<lparr>writer := snd (updateValue (callbacks s ! k) (writer s) value)\<rparr>
      else s)"

definition run :: "op list \<Rightarrow> session" where
  "run ops = foldl step session_new ops"

section \<open>Reader\<close>

record Reader =
  allowLoose :: bool
  r_data :: bytes
  r_offset :: nat

text \<open>The constructor; an absent \<^verbatim>\<open>allowLoose\<close> is \<open>None\<close>, and \<^verbatim>\<open>!!allowLoose\<close> makes it false.\<close>

definition Reader_new :: "bytes \<Rightarrow> bool option \<Rightarrow> Reader" where
  "Reader_new d loose = \<lparr>allowLoose = (loose = Some True), r_data = getBytesCopy d, r_offset = 0\<rparr>"

text \<open>\<^verbatim>\<open>#peekBytes(offset, length, loose)\<close>; the parameter \<^verbatim>\<open>offset\<close> is not used by the body.\<close>

definition peekBytes :: "Reader \<Rightarrow> nat \<Rightarrow> nat \<Rightarrow> bool \<Rightarrow> error + bytes" where
  "peekBytes r offset len loose =
     (case (if r_offset r + alignedLength len > length (r_data r)
            then (if allowLoose r \<and> loose \<and> r_offset r + len \<le> length (r_data r)
                  then Inr len
                  else Inl (BUFFER_OVERRUN ''data out-of-bounds'' (getBytesCopy (r_data r))
                              (length (r_data r)) (r_offset r + alignedLength len)))
            else Inr (alignedLength len)) of
        Inl e \<Rightarrow> Inl e
      | Inr aligned \<Rightarrow> Inr (slice2 (r_data r) (r_offset r) (r_offset r + aligned)))"

definition readBytes :: "Reader \<Rightarrow> nat \<Rightarrow> bool option \<Rightarrow> (error + bytes) \<times> Reader" where
  "readBytes r len loose =
     (case peekBytes r 0 len (loose = Some True) of
        Inl e \<Rightarrow> (Inl e, r)
      | Inr bytes \<Rightarrow> (Inr (slice2 bytes 0 len), r\<lparr>r_offset := r_offset r + length bytes\<rparr>))"

definition readValue :: "Reader \<Rightarrow> (error + nat) \<times> Reader" where
  "readValue r =
     (case readBytes r WordSize None of
        (Inl e, r') \<Rightarrow> (Inl e, r')
      | (Inr bytes, r') \<Rightarrow> (Inr (toBigInt bytes), r'))"

definition subReader :: "Reader \<Rightarrow> nat \<Rightarrow> Reader" where
  "subReader r offset =
     Reader_new (slice1 (r_data r) (r_offset r + offset)) (Some (allowLoose r))"

section \<open>Result\<close>

text \<open>
  The values a slot can hold: JavaScript values as far as the code tells them apart. An
  \<open>Error\<close> is an \<^verbatim>\<open>Error\<close> object with its message and its \<^verbatim>\<open>error\<close> property
  (\<open>Undefined\<close> when it has none); a \<open>RangeError\<close> is an \<^verbatim>\<open>Error\<close> too. \<open>Array\<close> is a
  plain array and \<open>Res\<close> a \<^verbatim>\<open>Result\<close>.

  A \<^verbatim>\<open>Result\<close> is its slots, the private \<^verbatim>\<open>#names\<close> and \<open>wrap\<close>, which says whether
  the value at hand is the \<^verbatim>\<open>Proxy\<close> the constructor returns (reads of an index go
  through the \<^verbatim>\<open>get\<close> trap) or the bare object.
\<close>

datatype val = Undefined | Null | Bool bool | Num int | Str string
  | Error (message: string) (error: val) | RangeError string
  | Array "val list" | Res result
and result = Result (wrap: bool) (items: "val list") (names: "string option list")

text \<open>The decimal digits of an index, as a template literal and a \<^verbatim>\<open>for ... in\<close> key give them.\<close>

fun string_of_nat :: "nat \<Rightarrow> string" where
  "string_of_nat n =
     (if n < 10 then [char_of (48 + n)]
      else string_of_nat (n div 10) @ [char_of (48 + n mod 10)])"

declare string_of_nat.simps [simp del]

text \<open>\<^verbatim>\<open>JSON.stringify\<close> of a string: quotes around it, with the quote, the backslash and
  the control characters escaped.\<close>

definition hex_digit :: "nat \<Rightarrow> char" where
  "hex_digit d = ''0123456789abcdef'' ! d"

definition quote_char :: "char \<Rightarrow> string" where
  "quote_char c =
     (if c = CHR 0x08 then [CHR 0x5C, CHR ''b'']
      else if c = CHR 0x09 then [CHR 0x5C, CHR ''t'']
      else if c = CHR 0x0A then [CHR 0x5C, CHR ''n'']
      else if c = CHR 0x0C then [CHR 0x5C, CHR ''f'']
      else if c = CHR 0x0D then [CHR 0x5C, CHR ''r'']
      else if c = CHR 0x22 then [CHR 0x5C, CHR 0x22]
      else if c = CHR 0x5C then [CHR 0x5C, CHR 0x5C]
      else if (of_char c :: nat) < 32
      then [CHR 0x5C, CHR ''u'', CHR ''0'', CHR ''0'',
            hex_digit (of_char c div 16), hex_digit (of_char c mod 16)]
      else [c])"

definition JSON_stringify :: "string \<Rightarrow> string" where
  "JSON_stringify s = [CHR 0x22] @ concat (map quote_char s) @ [CHR 0x22]"

text \<open>\<^verbatim>\<open>item instanceof Error\<close> and \<^verbatim>\<open>(<any>value).error\<close>.\<close>

definition isError :: "val \<Rightarrow> bool" where
  "isError v = (case v of Error m c \<Rightarrow> True | RangeError m \<Rightarrow> True | _ \<Rightarrow> False)"

definition error_of :: "val \<Rightarrow> val" where
  "error_of v = (case v of Error m c \<Rightarrow> c | _ \<Rightarrow> Undefined)"

text \<open>\<^verbatim>\<open>throwError(name, error)\<close> always throws; the model gives the value thrown.\<close>

definition throwError :: "string \<Rightarrow> val \<Rightarrow> val" where
  "throwError name err =
     Error (''deferred error during ABI decoding triggered accessing '' @ name) err"

text \<open>Reading an index of a bare array, and of the names: \<^verbatim>\<open>undefined\<close> out of range
  (which \<^verbatim>\<open>name != null\<close> treats as \<^verbatim>\<open>null\<close>).\<close>

definition raw_get :: "val list \<Rightarrow> nat \<Rightarrow> val" where
  "raw_get xs i = (if i < length xs then xs ! i else Undefined)"

definition raw_name :: "string option list \<Rightarrow> nat \<Rightarrow> string option" where
  "raw_name ns i = (if i < length ns then ns ! i else None)"

text \<open>The constructor: \<^verbatim>\<open>nameCounts\<close> is built by the \<^verbatim>\<open>reduce\<close> over the names, whose
  callback is \<open>count_name\<close>.\<close>

definition count_name :: "(string \<rightharpoonup> nat) \<Rightarrow> string option \<Rightarrow> (string \<rightharpoonup> nat)" where
  "count_name accum name =
     (case name of
        Some s \<Rightarrow> accum(s \<mapsto> (case accum s of None \<Rightarrow> 0 | Some c \<Rightarrow> c) + 1)
      | None \<Rightarrow> accum)"

definition nameCounts :: "string option list \<Rightarrow> (string \<rightharpoonup> nat)" where
  "nameCounts ns = foldl count_name Map.empty ns"

definition uniqueNames :: "val list \<Rightarrow> string option list \<Rightarrow> string option list" where
  "uniqueNames its ns =
     map (\<lambda>index.
            case raw_name ns index of
              Some name \<Rightarrow> if nameCounts ns name = Some 1 then Some name else None
            | None \<Rightarrow> None)
       [0..<length its]"

text \<open>
  \<open>Result_new guard args1 args2\<close> is \<^verbatim>\<open>new Result(...)\<close>: with \<open>guard\<close> the call is
  \<^verbatim>\<open>new Result(_guard, items, keys)\<close>, \<open>args1\<close> the items and \<open>args2\<close> the keys (empty when
  absent); without it the arguments \<open>args1\<close> are the items, there are no names and the
  object is not wrapped.
\<close>

definition Result_new :: "bool \<Rightarrow> val list \<Rightarrow> string option list \<Rightarrow> result" where
  "Result_new guard args1 args2 =
     (let (its, ns, wrapped) = (if guard then (args1, args2, True) else (args1, [], False))
      in Result wrapped its (uniqueNames its ns))"

definition fromItems :: "val list \<Rightarrow> string option list \<Rightarrow> result" where
  "fromItems its keys = Result_new True its keys"

text \<open>
  The \<^verbatim>\<open>get\<close> trap of the proxy on an index, and the plain read of a bare \<^verbatim>\<open>Result\<close>.
  A method called on the proxy runs with \<^verbatim>\<open>this\<close> bound to the bare object, \<open>target\<close>.
\<close>

definition Result_index :: "result \<Rightarrow> nat \<Rightarrow> val + val" where
  "Result_index r index =
     (if wrap r
      then (if index \<ge> length (items r) then Inl (RangeError ''out of result range'')
            else (let item = raw_get (items r) index in
                  if isError item then Inl (throwError (''index '' @ string_of_nat index) item)
                  else Inr item))
      else Inr (raw_get (items r) index))"

definition target :: "result \<Rightarrow> result" where
  "target r = Result False (items r) (names r)"

fun toArray_forEach :: "nat \<Rightarrow> val list \<Rightarrow> val option" where
  "toArray_forEach index [] = None"
| "toArray_forEach index (item # rest) =
     (if isError item then Some (throwError (''index '' @ string_of_nat index) item)
      else toArray_forEach (Suc index) rest)"

definition toArray :: "result \<Rightarrow> val + val" where
  "toArray r =
     (case toArray_forEach 0 (items r) of
        Some e \<Rightarrow> Inl e
      | None \<Rightarrow> Inr (Array [Res (target r)]))"

text \<open>\<^verbatim>\<open>slice(start, end)\<close>: the loop reads \<^verbatim>\<open>this[i]\<close> and \<^verbatim>\<open>this.#names[i]\<close> for every
  integer from \<open>start\<close> up to \<open>end\<close>, also outside the slots, where both are \<^verbatim>\<open>undefined\<close>.\<close>

definition item_at :: "result \<Rightarrow> int \<Rightarrow> val" where
  "item_at r i = (if 0 \<le> i then raw_get (items r) (nat i) else Undefined)"

definition name_at :: "result \<Rightarrow> int \<Rightarrow> string option" where
  "name_at r i = (if 0 \<le> i then raw_name (names r) (nat i) else None)"

function slice_loop ::
  "result \<Rightarrow> int \<Rightarrow> int \<Rightarrow> val list \<Rightarrow> string option list \<Rightarrow> val list \<times> string option list"
where
  "slice_loop this i end res ns =
     (if i < end
      then slice_loop this (i + 1) end (res @ [item_at this i]) (ns @ [name_at this i])
      else (res, ns))"
  by pat_completeness auto
termination
  by (relation "measure (\<lambda>(this, i, end, res, ns). nat (end - i))") auto

declare slice_loop.simps [simp del]

definition slice_Result :: "result \<Rightarrow> int option \<Rightarrow> int option \<Rightarrow> val + result" where
  "slice_Result this start end =
     (let start = (case start of None \<Rightarrow> 0 | Some s \<Rightarrow> s);
          end = (case end of None \<Rightarrow> int (length (items this)) | Some e \<Rightarrow> e);
          (res, ns) = slice_loop this start end [] []
      in Inr (Result_new True res ns))"

text \<open>\<^verbatim>\<open>filter(callback, thisArg)\<close>; the callback is a total predicate of the item, the
  index and the array.\<close>

function filter_loop ::
  "(val \<Rightarrow> nat \<Rightarrow> result \<Rightarrow> bool) \<Rightarrow> result \<Rightarrow> nat \<Rightarrow> val list \<Rightarrow> string option list
     \<Rightarrow> val + val list \<times> string option list"
where
  "filter_loop callback this i res ns =
     (if i < length (items this)
      then (let item = raw_get (items this) i in
            if isError item then Inl (throwError (''index '' @ string_of_nat i) item)
            else if callback item i this
            then filter_loop callback this (Suc i) (res @ [item]) (ns @ [raw_name (names this) i])
            else filter_loop callback this (Suc i) res ns)
      else Inr (res, ns))"
  by pat_completeness auto
termination
  by (relation "measure (\<lambda>(callback, this, i, res, ns). length (items this) - i)") auto

declare filter_loop.simps [simp del]

definition filter_Result :: "(val \<Rightarrow> nat \<Rightarrow> result \<Rightarrow> bool) \<Rightarrow> result \<Rightarrow> val + result" where
  "filter_Result callback r =
     (case filter_loop callback (target r) 0 [] [] of
        Inl e \<Rightarrow> Inl e
      | Inr (res, ns) \<Rightarrow> Inr (Result_new True res ns))"

text \<open>The method \<^verbatim>\<open>getValue(name)\<close> of a \<^verbatim>\<open>Result\<close>.\<close>

fun indexOf :: "'a list \<Rightarrow> 'a \<Rightarrow> nat option" where
  "indexOf [] x = None"
| "indexOf (y # ys) x = (if y = x then Some 0 else map_option Suc (indexOf ys x))"

definition Result_getValue :: "result \<Rightarrow> string \<Rightarrow> val + val" where
  "Result_getValue r name =
     (case indexOf (names r) (Some name) of
        None \<Rightarrow> Inr Undefined
      | Some index \<Rightarrow>
          (let value = raw_get (items r) index in
           if isError value
           then Inl (throwError (''property '' @ JSON_stringify name) (error_of value))
           else Inr value))"

text \<open>\<^verbatim>\<open>checkResultErrors\<close>. \<^verbatim>\<open>Array.isArray\<close> holds of an array and of a \<^verbatim>\<open>Result\<close>, bare or
  proxied; \<^verbatim>\<open>for (let key in object)\<close> runs over the indices in order; \<^verbatim>\<open>object[key]\<close> is a
  plain read of an array and of a bare \<^verbatim>\<open>Result\<close>, and the \<^verbatim>\<open>get\<close> trap of a proxied one.\<close>

definition isArray :: "val \<Rightarrow> bool" where
  "isArray v = (case v of Array xs \<Rightarrow> True | Res r \<Rightarrow> True | _ \<Rightarrow> False)"

definition keys_of :: "val \<Rightarrow> nat list" where
  "keys_of v = (case v of Array xs \<Rightarrow> [0..<length xs] | Res r \<Rightarrow> [0..<length (items r)] | _ \<Rightarrow> [])"

definition property_get :: "val \<Rightarrow> nat \<Rightarrow> val + val" where
  "property_get object key =
     (case object of Res r \<Rightarrow> Result_index r key
                   | Array xs \<Rightarrow> Inr (raw_get xs key)
                   | _ \<Rightarrow> Inr Undefined)"

type_synonym entry = "string list \<times> val"

text \<open>What a read returns is smaller than the array read, which is why the walk ends.\<close>

lemma size_nth_less: "i < length xs \<Longrightarrow> size (xs ! i) < Suc (size_list size xs)"
proof (induction xs arbitrary: i)
  case Nil
  then show ?case by simp
next
  case (Cons a xs)
  show ?case
  proof (cases i)
    case 0
    then show ?thesis by simp
  next
    case (Suc j)
    with Cons.prems have "j < length xs" by simp
    from Cons.IH [OF this] Suc show ?thesis by simp
  qed
qed

lemma property_get_size:
  "property_get object key = Inr child \<Longrightarrow> isArray object \<Longrightarrow> size child < size object"
proof (cases object)
  case (Array xs)
  assume "property_get object key = Inr child"
  with Array show ?thesis
    using size_nth_less [of key xs]
    by (auto simp: property_get_def raw_get_def split: if_splits)
next
  case (Res r)
  assume "property_get object key = Inr child"
  with Res show ?thesis
    using size_nth_less [of key "items r"]
    by (cases r) (auto simp: property_get_def Result_index_def raw_get_def Let_def split: if_splits)
qed (simp_all add: isArray_def)

lemma property_get_nonarray: "\<not> isArray object \<Longrightarrow> property_get object key = Inr Undefined"
  by (cases object) (simp_all add: property_get_def isArray_def)

text \<open>
  \<^verbatim>\<open>checkErrors(path, object)\<close> and the body of its \<^verbatim>\<open>for ... in\<close> loop over the keys left.
  Both return the value thrown, if any, and the \<^verbatim>\<open>errors\<close> array, which every call shares:
  the \<^verbatim>\<open>try\<close> covers the read \<^verbatim>\<open>object[key]\<close> and the recursive call, and the \<^verbatim>\<open>catch\<close>
  pushes what either throws.
\<close>

function checkErrors :: "string list \<Rightarrow> val \<Rightarrow> entry list \<Rightarrow> val option \<times> entry list"
  and checkErrors_for :: "string list \<Rightarrow> val \<Rightarrow> nat list \<Rightarrow> entry list \<Rightarrow> val option \<times> entry list"
where
  "checkErrors path object errors =
     (if \<not> isArray object then (None, errors)
      else checkErrors_for path object (keys_of object) errors)"
| "checkErrors_for path object [] errors = (None, errors)"
| "checkErrors_for path object (key # keys) errors =
     (let childPath = path @ [string_of_nat key];
          (thrown, errors) =
             (case property_get object key of
                Inl e \<Rightarrow> (Some e, errors)
              | Inr child \<Rightarrow> checkErrors childPath child errors);
          errors = (case thrown of Some e \<Rightarrow> errors @ [(childPath, e)] | None \<Rightarrow> errors)
      in checkErrors_for path object keys errors)"
  by pat_completeness auto
termination
proof (relation "inv_image (less_than <*lex*> less_than)
      (\<lambda>x. case x of
         Inl (path, object, errors) \<Rightarrow>
           (if isArray object then 2 * size object + 1 else 0, 0)
       | Inr (path, object, keys, errors) \<Rightarrow>
           (if isArray object then 2 * size object else 1, length keys))", goal_cases)
  case 1
  show ?case by (intro wf_inv_image wf_lex_prod wf_less_than)
next
  case (2 path object errors)
  then show ?case by simp
next
  case (3 path object key keys errors childPath child)
  show ?case
  proof (cases "isArray object")
    case True
    with 3 have "size child < size object" by (simp add: property_get_size)
    with True show ?thesis by simp
  next
    case False
    with 3 have "child = Undefined" by (simp add: property_get_nonarray)
    with False show ?thesis by (simp add: isArray_def)
  qed
next
  case 4
  then show ?case by simp
qed

declare checkErrors.simps [simp del] checkErrors_for.simps [simp del]

definition checkResultErrors :: "result \<Rightarrow> val + entry list" where
  "checkResultErrors r =
     (case checkErrors [] (Res r) [] of
        (Some e, errors) \<Rightarrow> Inl e
      | (None, errors) \<Rightarrow> Inr errors)"

text \<open>
  The slots whose access raises. \<open>slot_raises v p e\<close>: reading the indices \<open>p\<close> one after
  the other, starting at \<open>v\<close>, succeeds up to the last and the last read raises \<open>e\<close>.
  \<open>deferred v\<close> lists those slots with what they raise, depth first, and \<open>has_deferred v\<close>
  says whether there is one.
\<close>

fun slot_raises :: "val \<Rightarrow> nat list \<Rightarrow> val \<Rightarrow> bool" where
  "slot_raises v [] e = False"
| "slot_raises v (k # p) e =
     (isArray v \<and> k \<in> set (keys_of v) \<and>
      (case property_get v k of
         Inl e' \<Rightarrow> p = [] \<and> e' = e
       | Inr child \<Rightarrow> slot_raises child p e))"

function deferred :: "val \<Rightarrow> (nat list \<times> val) list" where
  "deferred v =
     (if isArray v
      then concat (map (\<lambda>k. case property_get v k of
                                Inl e \<Rightarrow> [([k], e)]
                              | Inr child \<Rightarrow> map (\<lambda>(p, e). (k # p, e)) (deferred child))
                     (keys_of v))
      else [])"
  by pat_completeness auto
termination
  by (relation "measure size") (auto simp: property_get_size)

declare deferred.simps [simp del]

fun has_deferred :: "val \<Rightarrow> bool" where
  "has_deferred (Array xs) = list_ex has_deferred xs"
| "has_deferred (Res (Result w xs ns)) = list_ex (\<lambda>x. (w \<and> isError x) \<or> has_deferred x) xs"
| "has_deferred v = False"

definition tag :: "string list \<Rightarrow> (nat list \<times> val) \<Rightarrow> entry" where
  "tag path = (\<lambda>(p, e). (path @ map string_of_nat p, e))"

definition deferred_at :: "val \<Rightarrow> nat \<Rightarrow> (nat list \<times> val) list" where
  "deferred_at v k = (case property_get v k of
                                Inl e \<Rightarrow> [([k], e)]
                              | Inr child \<Rightarrow> map (\<lambda>(p, e). (k # p, e)) (deferred child))"

text \<open>The invariant of a writer in use: the running total is the sum of the chunk lengths,
  and every closure handed out points at a chunk of one word.\<close>

definition chunks_total :: "bytes list \<Rightarrow> nat" where
  "chunks_total chunks = sum_list (map length chunks)"

definition writer_inv :: "session \<Rightarrow> bool" where
  "writer_inv s \<longleftrightarrow>
     w_dataLength (writer s) = chunks_total (w_data (writer s)) \<and>
     list_all (\<lambda>offset. offset < length (w_data (writer s)) \<and>
                 length (w_data (writer s) ! offset) = WordSize) (callbacks s)"

section \<open>Words: padding and the integer codec\<close>

lemma alignedLength_mod:
  "alignedLength n = (if n mod 32 = 0 then n else n + (32 - n mod 32))"
proof -
  define q r where "q = n div 32" and "r = n mod 32"
  have n: "n = q * 32 + r" and r: "r < 32" by (simp_all add: q_def r_def)
  show ?thesis
  proof (cases "r = 0")
    case True
    then have "(n + 31) div 32 = q" using n by simp
    with True n show ?thesis
      by (simp add: alignedLength_def WordSize_def r_def [symmetric])
  next
    case False
    then have "n + 31 = (q + 1) * 32 + (r - 1)" using n by simp
    moreover have "r - 1 < 32" using r by simp
    ultimately have "(n + 31) div 32 = q + 1"
      by (metis div_mult_self3 div_less add.commute add_cancel_right_right zero_neq_numeral)
    with False n r show ?thesis
      by (simp add: alignedLength_def WordSize_def r_def [symmetric])
  qed
qed

lemma length_getValue: "getValue v = Inr b \<Longrightarrow> length b = WordSize"
  by (auto simp: getValue_def Let_def getBytesCopy_def concat_bytes_def slice1_def
      Padding_def WordSize_def split: if_splits)

lemma getValue_fits:
  "length (toBeArray v) \<le> WordSize \<Longrightarrow>
   getValue v = Inr (replicate (WordSize - length (toBeArray v)) 0 @ toBeArray v)"
  by (auto simp: getValue_def Let_def getBytesCopy_def concat_bytes_def slice1_def
      Padding_def WordSize_def)

lemma getValue_overrun:
  "WordSize < length (toBeArray v) \<Longrightarrow>
   getValue v =
     Inl (BUFFER_OVERRUN ''value out-of-bounds'' (toBeArray v) WordSize (length (toBeArray v)))"
  by (simp add: getValue_def Let_def)

lemma toBigInt_append: "toBigInt (xs @ [b]) = toBigInt xs * 256 + unat b"
  by (simp add: toBigInt_def)

lemma toBigInt_toBeArray: "toBigInt (toBeArray n) = n"
proof (induction n rule: toBeArray.induct)
  case (1 n)
  show ?case
  proof (cases "n = 0")
    case True
    then show ?thesis by (simp add: toBeArray.simps toBigInt_def)
  next
    case False
    with 1 have "toBigInt (toBeArray (n div 256)) = n div 256" by simp
    with False show ?thesis
      by (subst toBeArray.simps) (simp add: toBigInt_append unat_of_nat)
  qed
qed

lemma toBigInt_zeros: "toBigInt (replicate k 0 @ xs) = toBigInt xs"
  by (induction k) (simp_all add: toBigInt_def)

lemma writeBytes_eq:
  "writeBytes w bs =
     (alignedLength (length bs),
      w\<lparr>w_data := w_data w @ [bs @ replicate (alignedLength (length bs) - length bs) 0],
        w_dataLength := w_dataLength w + alignedLength (length bs)\<rparr>)"
  by (simp add: writeBytes_def writeData_def Let_def getBytesCopy_def concat_bytes_def slice1_def
      Padding_def alignedLength_mod WordSize_def)

section \<open>The writer's invariant\<close>

lemma chunks_total_update:
  "i < length cs \<Longrightarrow> length (cs ! i) = length b \<Longrightarrow> chunks_total (cs[i := b]) = chunks_total cs"
  unfolding chunks_total_def
  by (induction cs arbitrary: i) (auto split: nat.splits)

lemma length_concat_bytes: "length (concat_bytes cs) = chunks_total cs"
  by (simp add: concat_bytes_def chunks_total_def length_concat)

lemma writer_inv_new: "writer_inv session_new"
  by (simp add: writer_inv_def session_new_def Writer_new_def chunks_total_def)

lemma writeData_inv:
  assumes "writer_inv s"
  shows "writer_inv (s\<lparr>writer := snd (writeData (writer s) d)\<rparr>)"
  using assms
  by (auto simp: writer_inv_def writeData_def chunks_total_def list_all_iff nth_append)

lemma writer_inv_step:
  assumes "writer_inv s"
  shows "writer_inv (step s x)"
proof (cases x)
  case (AppendWriter other)
  then show ?thesis using writeData_inv [OF assms] by (simp add: appendWriter_def)
next
  case (WriteBytes bs)
  then show ?thesis using writeData_inv [OF assms] by (simp add: writeBytes_def Let_def)
next
  case (WriteValue v)
  then show ?thesis using writeData_inv [OF assms] assms
    by (cases "getValue v") (simp_all add: writeValue_def case_prod_beta)
next
  case WriteUpdatableValue
  then show ?thesis using assms
    by (auto simp: writer_inv_def writeUpdatableValue_def Let_def chunks_total_def
        list_all_iff nth_append Padding_def)
next
  case (Callback k v)
  show ?thesis
  proof (cases "k < length (callbacks s)")
    case False
    with Callback assms show ?thesis by simp
  next
    case True
    then have off: "callbacks s ! k < length (w_data (writer s))"
      "length (w_data (writer s) ! (callbacks s ! k)) = WordSize"
      using assms by (auto simp: writer_inv_def list_all_length)
    show ?thesis
    proof (cases "getValue v")
      case (Inl e)
      with Callback True assms show ?thesis by (simp add: updateValue_def)
    next
      case (Inr b)
      then have len: "length b = WordSize" by (rule length_getValue)
      with off have "chunks_total ((w_data (writer s))[callbacks s ! k := b]) =
          chunks_total (w_data (writer s))"
        by (simp add: chunks_total_update)
      moreover have "list_all (\<lambda>offset. offset < length (w_data (writer s)) \<and>
          length ((w_data (writer s))[callbacks s ! k := b] ! offset) = WordSize) (callbacks s)"
        using assms off len
        by (auto simp: writer_inv_def list_all_iff nth_list_update)
      ultimately show ?thesis using Callback True Inr assms
        by (simp add: updateValue_def writer_inv_def)
    qed
  qed
qed

lemma writer_inv_foldl: "writer_inv s \<Longrightarrow> writer_inv (foldl step s ops)"
  by (induction ops arbitrary: s) (simp_all add: writer_inv_step)

section \<open>Claims about the reader and the writer\<close>

lemma length_toBeArray_le: "length (toBeArray n) \<le> k \<longleftrightarrow> n < 256 ^ k"
proof (induction n arbitrary: k rule: toBeArray.induct)
  case (1 n)
  show ?case
  proof (cases "n = 0")
    case True
    then show ?thesis by (simp add: toBeArray.simps)
  next
    case False
    then have len: "length (toBeArray n) = Suc (length (toBeArray (n div 256)))"
      by (subst toBeArray.simps) simp
    show ?thesis
    proof (cases k)
      case 0
      with False len show ?thesis by simp
    next
      case (Suc j)
      have "n < 256 * 256 ^ j \<longleftrightarrow> n div 256 < 256 ^ j"
        by (simp add: div_less_iff_less_mult mult.commute)
      with 1 [OF False, of j] len Suc show ?thesis by simp
    qed
  qed
qed

lemma toBeArray_258_fits: "length (toBeArray 258) \<le> WordSize"
  by (simp add: length_toBeArray_le WordSize_def)

lemma toBeArray_2_256_too_long: "WordSize < length (toBeArray (2 ^ 256))"
  using length_toBeArray_le [of "2 ^ 256" 32] by (simp add: WordSize_def)

lemma getValue_7: "getValue 7 = Inr (replicate 31 0 @ [7])"
  by (simp add: getValue_def toBeArray.simps Let_def WordSize_def getBytesCopy_def
      concat_bytes_def slice1_def Padding_def)

text \<open>
  C3. A read whose word-aligned end lies beyond the buffer succeeds exactly when the
  reader allows loose reads, the call passes \<^verbatim>\<open>loose = true\<close> and the unaligned length
  still fits: it then returns exactly \<open>len\<close> bytes, those at the cursor, and advances the
  cursor by \<open>len\<close>. Otherwise it raises the buffer overrun error carrying the buffer, its
  length and the offset \<open>cursor + aligned length\<close>, and the cursor stays.
\<close>

theorem readBytes_beyond_buffer:
  assumes "length (r_data r) < r_offset r + alignedLength len"
  shows "alignedLength len = (len + 31) div 32 * 32 \<and>
    (if allowLoose r \<and> loose = Some True \<and> r_offset r + len \<le> length (r_data r)
     then \<exists>bs. readBytes r len loose = (Inr bs, r\<lparr>r_offset := r_offset r + len\<rparr>) \<and>
            length bs = len \<and> bs = take len (drop (r_offset r) (r_data r))
     else readBytes r len loose =
            (Inl (BUFFER_OVERRUN ''data out-of-bounds'' (r_data r) (length (r_data r))
                    (r_offset r + alignedLength len)), r))"
  using assms
  by (auto simp: readBytes_def peekBytes_def slice2_def getBytesCopy_def alignedLength_def
      WordSize_def)

theorem readBytes_beyond_buffer_witness:
  "readBytes \<lparr>allowLoose = True, r_data = [1, 2, 3], r_offset = 0\<rparr> 3 (Some True) =
     (Inr [1, 2, 3], \<lparr>allowLoose = True, r_data = [1, 2, 3], r_offset = 3\<rparr>) \<and>
   readBytes \<lparr>allowLoose = False, r_data = [1, 2, 3], r_offset = 0\<rparr> 3 (Some True) =
     (Inl (BUFFER_OVERRUN ''data out-of-bounds'' [1, 2, 3] 3 32),
      \<lparr>allowLoose = False, r_data = [1, 2, 3], r_offset = 0\<rparr>)"
  using readBytes_beyond_buffer
          [of "\<lparr>allowLoose = True, r_data = [1, 2, 3], r_offset = 0\<rparr>" 3 "Some True"]
        readBytes_beyond_buffer
          [of "\<lparr>allowLoose = False, r_data = [1, 2, 3], r_offset = 0\<rparr>" 3 "Some True"]
  by (simp add: alignedLength_def WordSize_def)

text \<open>
  C4. Round trip of one word: for every \<open>v\<close> whose big-endian representation has at most
  32 bytes, \<^verbatim>\<open>writeValue\<close> into a fresh writer succeeds, and \<^verbatim>\<open>readValue\<close> on a reader over
  the writer's data returns \<open>v\<close>, whatever the reader's loose flag.
\<close>

theorem writeValue_readValue_roundtrip:
  assumes "length (toBeArray v) \<le> WordSize"
  shows "fst (writeValue Writer_new v) = Inr WordSize \<and>
         fst (readValue (Reader_new (Writer_data (snd (writeValue Writer_new v))) loose)) = Inr v"
  using assms
  by (simp add: writeValue_def getValue_fits writeData_def Writer_new_def Writer_data_def
      concat_bytes_def Reader_new_def getBytesCopy_def readValue_def readBytes_def peekBytes_def
      alignedLength_mod slice2_def WordSize_def toBigInt_zeros toBigInt_toBeArray)

theorem writeValue_readValue_roundtrip_witness:
  "length (toBeArray 258) \<le> WordSize \<and>
   fst (readValue (Reader_new (Writer_data (snd (writeValue Writer_new 258))) None)) = Inr 258"
proof -
  have h: "length (toBeArray 258) \<le> WordSize" by (rule toBeArray_258_fits)
  from writeValue_readValue_roundtrip [OF h, of None] h show ?thesis by simp
qed

text \<open>
  C5. \<^verbatim>\<open>writeBytes\<close> of \<open>n\<close> bytes appends the bytes padded on the right with zero bytes,
  advances the writer's length by \<open>ceil(n / 32) * 32\<close> and returns that count;
  \<^verbatim>\<open>writeValue\<close> of a value that fits one word advances the length by 32 and returns 32.
\<close>

theorem write_word_alignment:
  "fst (writeBytes w bs) = (length bs + 31) div 32 * 32 \<and>
   Writer_length (snd (writeBytes w bs)) = Writer_length w + (length bs + 31) div 32 * 32 \<and>
   w_data (snd (writeBytes w bs)) =
     w_data w @ [bs @ replicate ((length bs + 31) div 32 * 32 - length bs) 0] \<and>
   (length (toBeArray v) \<le> WordSize \<longrightarrow>
      fst (writeValue w v) = Inr 32 \<and>
      Writer_length (snd (writeValue w v)) = Writer_length w + 32)"
proof -
  have a: "alignedLength (length bs) = (length bs + 31) div 32 * 32"
    by (simp add: alignedLength_def WordSize_def)
  show ?thesis
    unfolding a [symmetric]
    by (auto simp: writeBytes_eq Writer_length_def WordSize_def writeValue_def getValue_fits
        writeData_def)
qed

theorem write_word_alignment_witness:
  "fst (writeBytes Writer_new [1, 2, 3]) = 32 \<and>
   w_data (snd (writeBytes Writer_new [1, 2, 3])) = [[1, 2, 3] @ replicate 29 0] \<and>
   length (toBeArray 258) \<le> WordSize \<and>
   fst (writeValue Writer_new 258) = Inr 32 \<and>
   Writer_length (snd (writeValue Writer_new 258)) = 32"
proof -
  have h: "length (toBeArray 258) \<le> WordSize" by (rule toBeArray_258_fits)
  from write_word_alignment [of Writer_new "[1, 2, 3]" 258] h show ?thesis
    by (simp add: Writer_new_def Writer_length_def)
qed

text \<open>
  C7. Whatever sequence of \<^verbatim>\<open>appendWriter\<close>, \<^verbatim>\<open>writeBytes\<close>, \<^verbatim>\<open>writeValue\<close> and
  \<^verbatim>\<open>writeUpdatableValue\<close> calls and of invocations of the closures returned so far is made
  on a new writer, succeeding or raising, the writer's length is the sum of its chunk
  lengths, which is the length of its data.
\<close>

theorem writer_length_is_data_length:
  "Writer_length (writer (run ops)) = chunks_total (w_data (writer (run ops))) \<and>
   Writer_length (writer (run ops)) = length (Writer_data (writer (run ops)))"
  using writer_inv_foldl [OF writer_inv_new, of ops]
  by (simp add: run_def writer_inv_def Writer_length_def Writer_data_def length_concat_bytes)

theorem writer_length_is_data_length_witness:
  "Writer_length (writer (run [WriteUpdatableValue, WriteBytes [1, 2, 3], Callback 0 7])) = 64 \<and>
   length (Writer_data (writer (run [WriteUpdatableValue, WriteBytes [1, 2, 3], Callback 0 7])))
     = 64"
proof -
  have e: "writer (run [WriteUpdatableValue, WriteBytes [1, 2, 3], Callback 0 7]) =
      \<lparr>w_data = [replicate 31 0 @ [7], [1, 2, 3] @ replicate 29 0], w_dataLength = 64\<rparr>"
    by (simp add: run_def session_new_def Writer_new_def writeUpdatableValue_def writeBytes_eq
        alignedLength_def updateValue_def getValue_7 Padding_def WordSize_def)
  from writer_length_is_data_length [of "[WriteUpdatableValue, WriteBytes [1, 2, 3], Callback 0 7]"]
  show ?thesis unfolding e by (simp add: Writer_length_def)
qed

text \<open>
  C10. The closure returned by \<^verbatim>\<open>writeUpdatableValue\<close>, invoked with a value whose
  big-endian representation has more than 32 bytes, raises the buffer overrun error of
  \<^verbatim>\<open>getValue\<close> and leaves the writer as it was; invoked right after the word was reserved,
  the reserved chunk is still the word of zero bytes, and the length and the other chunks
  are those of the writer after the reservation.
\<close>

theorem updateValue_out_of_range:
  assumes "WordSize < length (toBeArray v)"
  shows "updateValue offset w v =
           (Inl (BUFFER_OVERRUN ''value out-of-bounds'' (toBeArray v) WordSize
                   (length (toBeArray v))), w) \<and>
         (let (offset0, w1) = writeUpdatableValue w0 in
            snd (updateValue offset0 w1 v) = w1 \<and>
            w_data w1 ! offset0 = replicate 32 0 \<and>
            w_data w1 = w_data w0 @ [replicate 32 0] \<and>
            Writer_length w1 = Writer_length w0 + 32)"
  using assms
  by (simp add: updateValue_def getValue_overrun writeUpdatableValue_def Let_def Padding_def
      WordSize_def Writer_length_def)

theorem updateValue_out_of_range_witness:
  "WordSize < length (toBeArray (2 ^ 256)) \<and>
   snd (updateValue 0 (snd (writeUpdatableValue Writer_new)) (2 ^ 256)) =
     snd (writeUpdatableValue Writer_new) \<and>
   w_data (snd (writeUpdatableValue Writer_new)) = [replicate 32 0]"
proof -
  have h: "WordSize < length (toBeArray (2 ^ 256))" by (rule toBeArray_2_256_too_long)
  from updateValue_out_of_range [OF h, of 0 "snd (writeUpdatableValue Writer_new)" Writer_new] h
  show ?thesis
    by (simp add: writeUpdatableValue_def Let_def Writer_new_def Padding_def WordSize_def)
qed

section \<open>Names and positional access\<close>

lemma nameCounts_snoc: "nameCounts (ns @ [n]) = count_name (nameCounts ns) n"
  by (simp add: nameCounts_def)

lemma nameCounts_count:
  "nameCounts ns s = (if count_list ns (Some s) = 0 then None else Some (count_list ns (Some s)))"
proof (induction ns rule: rev_induct)
  case Nil
  show ?case by (simp add: nameCounts_def)
next
  case (snoc n ns)
  then show ?case
    by (cases n) (auto simp: nameCounts_snoc count_name_def)
qed

lemma nameCounts_one: "nameCounts ns s = Some 1 \<longleftrightarrow> count_list ns (Some s) = 1"
  by (simp add: nameCounts_count)

lemma indexOf_None: "indexOf xs x = None \<longleftrightarrow> x \<notin> set xs"
  by (induction xs) auto

lemma indexOf_Some: "indexOf xs x = Some i \<Longrightarrow> i < length xs \<and> xs ! i = x \<and> (\<forall>j<i. xs ! j \<noteq> x)"
proof (induction xs arbitrary: i)
  case Nil
  then show ?case by simp
next
  case (Cons y ys)
  show ?case
  proof (cases "y = x")
    case True
    with Cons.prems show ?thesis by simp
  next
    case False
    with Cons.prems obtain k where k: "indexOf ys x = Some k" "i = Suc k" by auto
    from Cons.IH [OF k(1)] False k(2) show ?thesis
      by (auto simp: nth_Cons split: nat.splits)
  qed
qed

lemma count_list_two:
  assumes "i < j" "j < length xs" "xs ! i = x" "xs ! j = x"
  shows "2 \<le> count_list xs x"
proof -
  have xs: "xs = take j xs @ xs ! j # drop (Suc j) xs"
    using assms(2) by (rule id_take_nth_drop)
  have "x \<in> set (take j xs)"
    using assms by (auto simp: in_set_conv_nth intro!: exI [of _ i])
  then have "0 < count_list (take j xs) x"
    using count_list_0_iff [of "take j xs" x] by fastforce
  moreover have "count_list xs x = count_list (take j xs) x + count_list (xs ! j # drop (Suc j) xs) x"
    by (subst xs) (simp only: count_list_append)
  ultimately show ?thesis using assms(4) by simp
qed

lemma uniqueNames_mem:
  "Some s \<in> set (uniqueNames its ns) \<Longrightarrow> count_list ns (Some s) = 1"
  by (auto simp: uniqueNames_def nameCounts_count split: option.splits if_splits)

lemma items_fromItems [simp]: "items (fromItems its keys) = its"
  and wrap_fromItems [simp]: "wrap (fromItems its keys) = True"
  and names_fromItems: "names (fromItems its keys) = uniqueNames its keys"
  by (simp_all add: fromItems_def Result_new_def)

lemma Result_index_fromItems:
  "Result_index (fromItems its keys) k =
     (if length its \<le> k then Inl (RangeError ''out of result range'')
      else if isError (its ! k) then Inl (throwError (''index '' @ string_of_nat k) (its ! k))
      else Inr (its ! k))"
  by (simp add: Result_index_def raw_get_def Let_def)

text \<open>
  C6, as amended. When one name stands at two indices of the keys, \<^verbatim>\<open>getValue\<close> of that
  name returns \<^verbatim>\<open>undefined\<close>, and positional access to either index, where it is an index
  of the items, is what it is for any slot: the stored value, unless the slot holds a
  captured error, which the access raises as a deferred error. A slot that holds a captured error
  is where this differs from returning the stored value at every such index.
\<close>

theorem duplicate_name_disables_name_access:
  assumes "i < j" and "j < length keys" and "keys ! i = Some name" and "keys ! j = Some name"
  shows "Result_getValue (fromItems its keys) name = Inr Undefined \<and>
         (\<forall>k\<in>{i, j}. k < length its \<longrightarrow>
            Result_index (fromItems its keys) k =
              (if isError (its ! k)
               then Inl (throwError (''index '' @ string_of_nat k) (its ! k))
               else Inr (its ! k)))"
proof -
  have "2 \<le> count_list keys (Some name)"
    using assms by (rule count_list_two)
  then have "Some name \<notin> set (uniqueNames its keys)"
    using uniqueNames_mem [of name its keys] by auto
  then have "indexOf (names (fromItems its keys)) (Some name) = None"
    by (simp add: indexOf_None names_fromItems)
  then show ?thesis
    by (simp add: Result_getValue_def Result_index_fromItems)
qed

lemma string_of_nat_0: "string_of_nat 0 = ''0''"
  by code_simp

lemma string_of_nat_1: "string_of_nat 1 = ''1''"
  by code_simp

lemma string_of_nat_Suc_0: "string_of_nat (Suc 0) = ''1''"
  using string_of_nat_1 by simp

theorem duplicate_name_counterexample:
  "[Some ''a'', Some ''a''] ! 0 = Some ''a'' \<and> [Some ''a'', Some ''a''] ! 1 = Some ''a'' \<and>
   Result_index (fromItems [Error ''boom'' Undefined, Num 1] [Some ''a'', Some ''a'']) 0 =
     Inl (Error ''deferred error during ABI decoding triggered accessing index 0''
            (Error ''boom'' Undefined)) \<and>
   Result_index (fromItems [Error ''boom'' Undefined, Num 1] [Some ''a'', Some ''a'']) 0 \<noteq>
     Inr (Error ''boom'' Undefined)"
  by (simp add: Result_index_fromItems isError_def throwError_def string_of_nat_0)

theorem duplicate_name_disables_name_access_witness:
  "Result_getValue (fromItems [Num 1, Num 2] [Some ''a'', Some ''a'']) ''a'' = Inr Undefined \<and>
   Result_index (fromItems [Num 1, Num 2] [Some ''a'', Some ''a'']) 0 = Inr (Num 1) \<and>
   Result_index (fromItems [Num 1, Num 2] [Some ''a'', Some ''a'']) 1 = Inr (Num 2)"
  using duplicate_name_disables_name_access
    [of 0 1 "[Some ''a'', Some ''a'']" "''a''" "[Num 1, Num 2]"]
  by (simp add: isError_def)

lemma toArray_forEach_clean:
  "(\<And>x. x \<in> set xs \<Longrightarrow> \<not> isError x) \<Longrightarrow> toArray_forEach k xs = None"
  by (induction xs arbitrary: k) simp_all

lemma toArray_forEach_first_error:
  assumes "i < length xs" and "isError (xs ! i)" and "\<And>j. j < i \<Longrightarrow> \<not> isError (xs ! j)"
  shows "toArray_forEach k xs = Some (throwError (''index '' @ string_of_nat (k + i)) (xs ! i))"
  using assms
proof (induction xs arbitrary: k i)
  case Nil
  then show ?case by simp
next
  case (Cons x xs)
  show ?case
  proof (cases i)
    case 0
    with Cons.prems show ?thesis by simp
  next
    case (Suc j)
    have nx: "\<not> isError x" using Cons.prems(3) [of 0] Suc by simp
    have "toArray_forEach (Suc k) xs =
        Some (throwError (''index '' @ string_of_nat (Suc k + j)) (xs ! j))"
    proof (rule Cons.IH)
      show "j < length xs" using Cons.prems(1) Suc by simp
      show "isError (xs ! j)" using Cons.prems(2) Suc by simp
      show "\<not> isError (xs ! j')" if "j' < j" for j'
        using Cons.prems(3) [of "Suc j'"] that Suc by simp
    qed
    with nx Suc show ?thesis by simp
  qed
qed

lemma toArray_without_errors:
  "(\<And>x. x \<in> set (items r) \<Longrightarrow> \<not> isError x) \<Longrightarrow> toArray r = Inr (Array [Res (target r)])"
  by (simp add: toArray_def toArray_forEach_clean)

lemma toArray_first_error:
  assumes "i < length (items r)" and "isError (items r ! i)"
    and "\<And>j. j < i \<Longrightarrow> \<not> isError (items r ! j)"
  shows "toArray r = Inl (throwError (''index '' @ string_of_nat i) (items r ! i))"
  using toArray_forEach_first_error [OF assms, of 0] by (simp add: toArray_def)

text \<open>
  C1. \<^verbatim>\<open>toArray()\<close> ends with \<^verbatim>\<open>return Array.of(this)\<close>, an array whose one element is the
  \<^verbatim>\<open>Result\<close> itself (\<open>toArray_without_errors\<close>), not an array of the slots; a captured
  error is raised at the first slot that holds one (\<open>toArray_first_error\<close>). On the
  \<^verbatim>\<open>Result\<close> of the items 1 and 2 the array returned has length one.
\<close>

theorem toArray_wraps_the_result:
  "toArray (fromItems [Num 1, Num 2] [Some ''a'', Some ''b'']) =
     Inr (Array [Res (Result False [Num 1, Num 2] [Some ''a'', Some ''b''])]) \<and>
   toArray (fromItems [Num 1, Num 2] [Some ''a'', Some ''b'']) \<noteq> Inr (Array [Num 1, Num 2])"
  by (simp add: toArray_def isError_def target_def names_fromItems uniqueNames_def raw_name_def
      nameCounts_def count_name_def)

text \<open>
  C2. Both access paths raise a wrapped error whose message names the access. The index
  path attaches the captured error; \<^verbatim>\<open>getValue(name)\<close> attaches the \<^verbatim>\<open>error\<close> property of
  the captured error instead, which is \<^verbatim>\<open>undefined\<close> for a captured \<^verbatim>\<open>Error("boom")\<close>.
\<close>

theorem getValue_drops_the_captured_error:
  "Result_getValue (fromItems [Error ''boom'' Undefined] [Some ''a'']) ''a'' =
     Inl (Error (''deferred error during ABI decoding triggered accessing property '' @
                   [CHR 0x22] @ ''a'' @ [CHR 0x22]) Undefined) \<and>
   Result_index (fromItems [Error ''boom'' Undefined] [Some ''a'']) 0 =
     Inl (Error ''deferred error during ABI decoding triggered accessing index 0''
            (Error ''boom'' Undefined))"
  by (simp add: Result_getValue_def names_fromItems uniqueNames_def raw_name_def nameCounts_def
      count_name_def raw_get_def isError_def throwError_def error_of_def JSON_stringify_def
      quote_char_def Result_index_fromItems string_of_nat_0)

section \<open>Slicing and filtering\<close>

lemma slice_loop_upt:
  "a \<le> b \<Longrightarrow>
   slice_loop this (int a) (int b) res ns =
     (res @ map (raw_get (items this)) [a..<b], ns @ map (raw_name (names this)) [a..<b])"
proof (induction "b - a" arbitrary: a res ns)
  case 0
  then show ?case by (subst slice_loop.simps) simp
next
  case (Suc d)
  then have lt: "a < b" and d: "d = b - Suc a" and le: "Suc a \<le> b" by simp_all
  have "slice_loop this (int a) (int b) res ns =
      slice_loop this (int (Suc a)) (int b) (res @ [item_at this (int a)]) (ns @ [name_at this (int a)])"
    using lt by (subst slice_loop.simps) (simp add: add.commute)
  also have "\<dots> = ((res @ [item_at this (int a)]) @ map (raw_get (items this)) [Suc a..<b],
      (ns @ [name_at this (int a)]) @ map (raw_name (names this)) [Suc a..<b])"
    by (rule Suc.hyps(1) [OF d le])
  finally show ?case using lt
    by (simp add: upt_conv_Cons item_at_def name_at_def)
qed

lemma map_raw_get_upt:
  "b \<le> length xs \<Longrightarrow> map (raw_get xs) [a..<b] = take (b - a) (drop a xs)"
  by (rule nth_equalityI) (auto simp: raw_get_def)

lemma map_raw_name_upt:
  "b \<le> length xs \<Longrightarrow> map (raw_name xs) [a..<b] = take (b - a) (drop a xs)"
  by (rule nth_equalityI) (auto simp: raw_name_def)

lemma count_list_map_le:
  assumes "\<And>x. x \<in> set xs \<Longrightarrow> h x = y \<Longrightarrow> x = y'"
  shows "count_list (map h xs) y \<le> count_list xs y'"
  using assms
proof (induction xs)
  case Nil
  show ?case by simp
next
  case (Cons a xs)
  then have ih: "count_list (map h xs) y \<le> count_list xs y'" by simp
  show ?case
  proof (cases "h a = y")
    case True
    with Cons.prems [of a] have "a = y'" by simp
    with True ih show ?thesis by simp
  next
    case False
    with ih show ?thesis by simp
  qed
qed

lemma count_list_take_le: "count_list (take n xs) x \<le> count_list xs x"
proof -
  have "count_list xs x = count_list (take n xs) x + count_list (drop n xs) x"
    using count_list_append [of "take n xs" "drop n xs" x] by simp
  then show ?thesis by simp
qed

lemma count_list_drop_le: "count_list (drop n xs) x \<le> count_list xs x"
proof -
  have "count_list xs x = count_list (take n xs) x + count_list (drop n xs) x"
    using count_list_append [of "take n xs" "drop n xs" x] by simp
  then show ?thesis by simp
qed

lemma uniqueNames_eq_map:
  "uniqueNames its ns =
     map (\<lambda>n. case n of Some s \<Rightarrow> if count_list ns (Some s) = 1 then Some s else None
                       | None \<Rightarrow> None)
       (map (raw_name ns) [0..<length its])"
  by (auto simp: uniqueNames_def nameCounts_count split: option.splits)

lemma count_list_raw_name_le:
  "count_list (map (raw_name ns) [0..<n]) (Some s) \<le> count_list ns (Some s)"
proof (cases "n \<le> length ns")
  case True
  then have "map (raw_name ns) [0..<n] = take n ns"
    using map_raw_name_upt [of n ns 0] by simp
  then show ?thesis by (simp add: count_list_take_le)
next
  case False
  then have n: "[0..<n] = [0..<length ns] @ [length ns..<n]"
    using upt_add_eq_append [of 0 "length ns" "n - length ns"] by simp
  have "map (raw_name ns) [length ns..<n] = replicate (n - length ns) None"
    by (rule nth_equalityI) (auto simp: raw_name_def)
  moreover have "map (raw_name ns) [0..<length ns] = ns"
    using map_raw_name_upt [of "length ns" ns 0] by simp
  ultimately have "map (raw_name ns) [0..<n] = ns @ replicate (n - length ns) None"
    by (subst n) simp
  then show ?thesis by (simp add: count_list_append count_notin)
qed

lemma count_list_uniqueNames: "count_list (uniqueNames its ns) (Some s) \<le> 1"
proof (cases "count_list ns (Some s) = 1")
  case True
  have "count_list (uniqueNames its ns) (Some s)
      \<le> count_list (map (raw_name ns) [0..<length its]) (Some s)"
    unfolding uniqueNames_eq_map
    by (rule count_list_map_le) (auto split: option.splits if_splits)
  also have "\<dots> \<le> count_list ns (Some s)" by (rule count_list_raw_name_le)
  finally show ?thesis using True by simp
next
  case False
  then have "Some s \<notin> set (uniqueNames its ns)"
    using uniqueNames_mem by blast
  then show ?thesis by (simp add: count_notin)
qed

lemma uniqueNames_unchanged:
  assumes "length ns = length its" and "\<And>s. count_list ns (Some s) \<le> 1"
  shows "uniqueNames its ns = ns"
proof (rule nth_equalityI)
  show "length (uniqueNames its ns) = length ns"
    using assms(1) by (simp add: uniqueNames_def)
next
  fix k assume "k < length (uniqueNames its ns)"
  then have k: "k < length ns" using assms(1) by (simp add: uniqueNames_def)
  show "uniqueNames its ns ! k = ns ! k"
  proof (cases "ns ! k")
    case None
    with k assms(1) show ?thesis by (simp add: uniqueNames_def raw_name_def)
  next
    case (Some s)
    with k have "Some s \<in> set ns" using nth_mem [of k ns] by simp
    then have "count_list ns (Some s) \<noteq> 0" by (simp add: count_list_0_iff)
    with assms(2) [of s] have "count_list ns (Some s) = 1" by simp
    with Some k assms(1) show ?thesis
      by (simp add: uniqueNames_def raw_name_def nameCounts_count)
  qed
qed

lemma slice_fromItems:
  assumes "a \<le> b" and "b \<le> length its"
  shows "slice_Result (fromItems its keys) (Some (int a)) (Some (int b)) =
           Inr (Result True (take (b - a) (drop a its))
                  (take (b - a) (drop a (uniqueNames its keys))))"
proof -
  let ?ns = "take (b - a) (drop a (uniqueNames its keys))"
  let ?xs = "take (b - a) (drop a its)"
  have len: "length (uniqueNames its keys) = length its" by (simp add: uniqueNames_def)
  have "\<And>s. count_list ?ns (Some s) \<le> 1"
    using count_list_take_le [of "b - a" "drop a (uniqueNames its keys)"]
      count_list_drop_le [of a "uniqueNames its keys"] count_list_uniqueNames [of its keys]
    by (meson order_trans)
  moreover have "length ?ns = length ?xs" by (simp add: len)
  ultimately have "uniqueNames ?xs ?ns = ?ns" by (rule uniqueNames_unchanged [rotated])
  then show ?thesis
    using assms
    by (simp add: slice_Result_def slice_loop_upt names_fromItems map_raw_get_upt map_raw_name_upt len
        Result_new_def)
qed

lemma filter_loop_first_error:
  assumes "k \<le> i" and "i < length (items this)" and "isError (items this ! i)"
    and "\<And>j. k \<le> j \<Longrightarrow> j < i \<Longrightarrow> \<not> isError (items this ! j)"
  shows "filter_loop callback this k res ns =
           Inl (throwError (''index '' @ string_of_nat i) (items this ! i))"
  using assms
proof (induction "i - k" arbitrary: k res ns)
  case 0
  then have "k = i" by simp
  with 0 show ?case by (subst filter_loop.simps) (simp add: raw_get_def)
next
  case (Suc d)
  then have lt: "k < i" and d: "d = i - Suc k" by simp_all
  have ne: "\<not> isError (items this ! k)" using Suc.prems(4) [of k] lt by simp
  have ih: "filter_loop callback this (Suc k) res' ns' =
      Inl (throwError (''index '' @ string_of_nat i) (items this ! i))" for res' ns'
    using Suc.hyps(1) [OF d _ Suc.prems(2,3)] Suc.prems(4) lt by simp
  from lt Suc.prems(2) ne show ?case
    by (subst filter_loop.simps) (simp add: raw_get_def Let_def ih)
qed

lemma filter_Result_first_error:
  assumes "i < length its" and "isError (its ! i)" and "\<And>k. k < i \<Longrightarrow> \<not> isError (its ! k)"
  shows "filter_Result callback (fromItems its keys) =
           Inl (throwError (''index '' @ string_of_nat i) (its ! i))"
proof -
  have "filter_loop callback (target (fromItems its keys)) 0 [] [] =
      Inl (throwError (''index '' @ string_of_nat i) (items (target (fromItems its keys)) ! i))"
    by (rule filter_loop_first_error) (use assms in \<open>simp_all add: target_def\<close>)
  then show ?thesis by (simp add: filter_Result_def target_def)
qed

lemma first_error_slot:
  assumes "isError (its ! i)"
  shows "\<exists>j\<le>i. isError (its ! j) \<and> (\<forall>k<j. \<not> isError (its ! k))"
proof -
  define j where "j = (LEAST j. isError (its ! j))"
  have "isError (its ! j)" unfolding j_def using assms by (rule LeastI)
  moreover have "j \<le> i" unfolding j_def using assms by (rule Least_le)
  moreover have "\<forall>k<j. \<not> isError (its ! k)"
    unfolding j_def using not_less_Least by blast
  ultimately show ?thesis by blast
qed

text \<open>
  C8, as amended. On a wrapped \<^verbatim>\<open>Result\<close> with a captured error at slot \<open>i\<close>, \<^verbatim>\<open>filter\<close>
  raises the deferred error of the first slot that holds one, whatever the predicate: at
  slot \<open>i\<close> when no slot before it holds one. \<^verbatim>\<open>slice\<close> over a sub-range does not raise
  and returns a \<^verbatim>\<open>Result\<close> with the range's slots and names, built with the guard like
  the one \<^verbatim>\<open>fromItems\<close> builds: it is wrapped, not raw, so reading a slot of it that
  holds a captured error raises.
\<close>

theorem filter_raises_slice_Result_defers:
  assumes "i < length its" and "isError (its ! i)"
  shows "(\<exists>j\<le>i. isError (its ! j) \<and> (\<forall>k<j. \<not> isError (its ! k)) \<and>
            filter_Result callback (fromItems its keys) =
              Inl (throwError (''index '' @ string_of_nat j) (its ! j))) \<and>
         ((\<forall>k<i. \<not> isError (its ! k)) \<longrightarrow>
            filter_Result callback (fromItems its keys) =
              Inl (throwError (''index '' @ string_of_nat i) (its ! i))) \<and>
         (a \<le> b \<and> b \<le> length its \<longrightarrow>
            slice_Result (fromItems its keys) (Some (int a)) (Some (int b)) =
              Inr (Result True (take (b - a) (drop a its))
                     (take (b - a) (drop a (names (fromItems its keys))))))"
proof (intro conjI impI)
  from first_error_slot [OF assms(2)] obtain j
    where j: "j \<le> i" "isError (its ! j)" "\<forall>k<j. \<not> isError (its ! k)" by blast
  with assms(1) have "filter_Result callback (fromItems its keys) =
      Inl (throwError (''index '' @ string_of_nat j) (its ! j))"
    by (intro filter_Result_first_error) simp_all
  with j show "\<exists>j\<le>i. isError (its ! j) \<and> (\<forall>k<j. \<not> isError (its ! k)) \<and>
      filter_Result callback (fromItems its keys) =
        Inl (throwError (''index '' @ string_of_nat j) (its ! j))"
    by blast
next
  assume "\<forall>k<i. \<not> isError (its ! k)"
  with assms show "filter_Result callback (fromItems its keys) =
      Inl (throwError (''index '' @ string_of_nat i) (its ! i))"
    by (intro filter_Result_first_error) simp_all
next
  assume "a \<le> b \<and> b \<le> length its"
  then show "slice_Result (fromItems its keys) (Some (int a)) (Some (int b)) =
      Inr (Result True (take (b - a) (drop a its))
             (take (b - a) (drop a (names (fromItems its keys)))))"
    by (simp add: slice_fromItems names_fromItems)
qed

lemma uniqueNames_example:
  "uniqueNames [Num 1, Error ''boom'' Undefined, Num 2] [Some ''a'', Some ''b'', Some ''c''] =
     [Some ''a'', Some ''b'', Some ''c'']"
  by (rule uniqueNames_unchanged) (auto simp: less_Suc_eq_le)

theorem filter_raises_slice_Result_defers_witness:
  "filter_Result (\<lambda>item index array. True)
      (fromItems [Num 1, Error ''boom'' Undefined, Num 2] [Some ''a'', Some ''b'', Some ''c'']) =
     Inl (Error ''deferred error during ABI decoding triggered accessing index 1''
            (Error ''boom'' Undefined)) \<and>
   slice_Result (fromItems [Num 1, Error ''boom'' Undefined, Num 2] [Some ''a'', Some ''b'', Some ''c''])
      (Some 1) (Some 3) =
     Inr (Result True [Error ''boom'' Undefined, Num 2] [Some ''b'', Some ''c''])"
  using filter_raises_slice_Result_defers
    [of 1 "[Num 1, Error ''boom'' Undefined, Num 2]" "\<lambda>item index array. True"
        "[Some ''a'', Some ''b'', Some ''c'']" 1 3]
  by (simp add: isError_def throwError_def string_of_nat_Suc_0 names_fromItems uniqueNames_example)

theorem slice_returns_wrapped_result:
  "slice_Result (fromItems [Error ''boom'' Undefined, Num 1] [Some ''a'', Some ''b'']) (Some 0) (Some 1) =
     Inr (Result True [Error ''boom'' Undefined] [Some ''a'']) \<and>
   wrap (Result True [Error ''boom'' Undefined] [Some ''a'']) \<and>
   Result True [Error ''boom'' Undefined] [Some ''a''] \<noteq>
     Result_new False [Error ''boom'' Undefined] [Some ''a''] \<and>
   Result_index (Result True [Error ''boom'' Undefined] [Some ''a'']) 0 =
     Inl (Error ''deferred error during ABI decoding triggered accessing index 0''
            (Error ''boom'' Undefined))"
proof -
  have "uniqueNames [Error ''boom'' Undefined, Num 1] [Some ''a'', Some ''b''] =
      [Some ''a'', Some ''b'']"
    by (rule uniqueNames_unchanged) (auto simp: less_Suc_eq_le)
  then show ?thesis
    using slice_fromItems [of 0 1 "[Error ''boom'' Undefined, Num 1]" "[Some ''a'', Some ''b'']"]
    by (simp add: Result_index_def raw_get_def isError_def throwError_def string_of_nat_0
        Result_new_def)
qed

section \<open>The sweep for deferred errors\<close>

lemma deferred_eq:
  "deferred v = (if isArray v then concat (map (deferred_at v) (keys_of v)) else [])"
  by (subst deferred.simps) (simp add: deferred_at_def [abs_def])

lemma deferred_at_Inl: "property_get v k = Inl e \<Longrightarrow> deferred_at v k = [([k], e)]"
  by (simp add: deferred_at_def)

lemma deferred_at_Inr:
  "property_get v k = Inr child \<Longrightarrow>
   deferred_at v k = map (\<lambda>(p, e). (k # p, e)) (deferred child)"
  by (simp add: deferred_at_def)

lemma checkErrors_deferred:
  "checkErrors path v errs = (None, errs @ map (tag path) (deferred v))"
  "checkErrors_for path v ks errs =
     (None, errs @ map (tag path) (concat (map (deferred_at v) ks)))"
proof (induction path v errs and path v ks errs rule: checkErrors_checkErrors_for.induct)
  case (1 path object errors)
  then show ?case
    by (subst checkErrors.simps) (simp add: deferred_eq)
next
  case (2 path object errors)
  then show ?case by (simp add: checkErrors_for.simps)
next
  case (3 path object key keys errors)
  show ?case
  proof (cases "property_get object key")
    case (Inl e)
    with 3(2) [OF refl, of "(Some e, errors)" "Some e" errors
        "errors @ [(path @ [string_of_nat key], e)]"]
    show ?thesis
      by (subst checkErrors_for.simps) (simp add: deferred_at_Inl tag_def)
  next
    case (Inr child)
    note ih1 = 3(1) [OF refl Inr]
    have tg: "map (tag (path @ [string_of_nat key])) (deferred child) =
        map (tag path) (deferred_at object key)"
      by (simp add: deferred_at_Inr [OF Inr] tag_def case_prod_beta comp_def)
    from 3(2) [OF refl, of "checkErrors (path @ [string_of_nat key]) child errors" None
        "errors @ map (tag (path @ [string_of_nat key])) (deferred child)"
        "errors @ map (tag (path @ [string_of_nat key])) (deferred child)"] ih1 Inr
    show ?thesis
      by (subst checkErrors_for.simps) (simp add: tg)
  qed
qed

lemma checkResultErrors_deferred:
  "checkResultErrors r = Inr (map (tag []) (deferred (Res r)))"
  by (simp add: checkResultErrors_def checkErrors_deferred)

lemma deferred_at_head: "(p, e) \<in> set (deferred_at v k) \<Longrightarrow> \<exists>q. p = k # q"
  by (cases "property_get v k") (auto simp: deferred_at_def)

lemma deferred_at_mem:
  "(k # q, e) \<in> set (deferred_at v k) \<longleftrightarrow>
     (case property_get v k of
        Inl e' \<Rightarrow> q = [] \<and> e' = e
      | Inr child \<Rightarrow> (q, e) \<in> set (deferred child))"
  by (cases "property_get v k") (auto simp: deferred_at_def)

lemma deferred_mem:
  "(k # q, e) \<in> set (deferred v) \<longleftrightarrow>
     isArray v \<and> k \<in> set (keys_of v) \<and> (k # q, e) \<in> set (deferred_at v k)"
  using deferred_at_head [of "k # q" e v] by (auto simp: deferred_eq)

lemma deferred_nonempty_path: "([], e) \<notin> set (deferred v)"
  using deferred_at_head [of "[]" e v] by (auto simp: deferred_eq)

lemma deferred_iff_slot_raises: "(p, e) \<in> set (deferred v) \<longleftrightarrow> slot_raises v p e"
proof (induction p arbitrary: v)
  case Nil
  show ?case by (simp add: deferred_nonempty_path)
next
  case (Cons k q)
  show ?case
    by (cases "property_get v k") (simp_all add: deferred_mem deferred_at_mem Cons.IH)
qed

lemma distinct_concat_map:
  assumes "distinct ks" and "\<And>k. k \<in> set ks \<Longrightarrow> distinct (f k)"
    and "\<And>k k'. k \<in> set ks \<Longrightarrow> k' \<in> set ks \<Longrightarrow> k \<noteq> k' \<Longrightarrow> set (f k) \<inter> set (f k') = {}"
  shows "distinct (concat (map f ks))"
  using assms
proof (induction ks)
  case Nil
  show ?case by simp
next
  case (Cons k ks)
  have "distinct (concat (map f ks))"
    using Cons.prems by (intro Cons.IH) auto
  moreover have "distinct (f k)" using Cons.prems(2) by simp
  moreover have "set (f k) \<inter> set (f k') = {}" if "k' \<in> set ks" for k'
    using that Cons.prems(1) by (intro Cons.prems(3)) auto
  ultimately show ?case by auto
qed

lemma distinct_deferred: "distinct (map fst (deferred v))"
proof (induction v rule: deferred.induct)
  case (1 v)
  show ?case
  proof (cases "isArray v")
    case False
    then show ?thesis by (simp add: deferred_eq)
  next
    case True
    have one: "distinct (map fst (deferred_at v k))" if "k \<in> set (keys_of v)" for k
    proof (cases "property_get v k")
      case (Inl e)
      then show ?thesis by (simp add: deferred_at_Inl)
    next
      case (Inr child)
      have eq: "map fst (deferred_at v k) = map ((#) k) (map fst (deferred child))"
        by (simp add: deferred_at_Inr [OF Inr] case_prod_beta comp_def)
      have inj: "inj_on ((#) k) (set (map fst (deferred child)))"
        by (rule inj_onI) simp
      have "distinct (map ((#) k) (map fst (deferred child)))"
        by (rule distinct_map [THEN iffD2]) (rule conjI [OF 1 [OF True that Inr] inj])
      then show ?thesis by (simp only: eq)
    qed
    have two: "set (map fst (deferred_at v k)) \<inter> set (map fst (deferred_at v k')) = {}"
      if "k \<noteq> k'" for k k'
      using that deferred_at_head [of _ _ v k] deferred_at_head [of _ _ v k'] by fastforce
    have "distinct (concat (map (\<lambda>k. map fst (deferred_at v k)) (keys_of v)))"
    proof (rule distinct_concat_map)
      show "distinct (keys_of v)" by (simp add: keys_of_def split: val.splits)
    next
      fix k assume "k \<in> set (keys_of v)"
      then show "distinct (map fst (deferred_at v k))" by (rule one)
    next
      fix k k' :: nat assume "k \<noteq> k'"
      then show "set (map fst (deferred_at v k)) \<inter> set (map fst (deferred_at v k')) = {}"
        by (rule two)
    qed
    then show ?thesis using True by (simp add: deferred_eq map_concat comp_def)
  qed
qed

lemma length_string_of_nat: "0 < length (string_of_nat n)"
  by (subst string_of_nat.simps) simp

lemma string_of_nat_digit: "n < 10 \<Longrightarrow> string_of_nat n = [char_of (48 + n)]"
  by (subst string_of_nat.simps) simp

lemma string_of_nat_step:
  "\<not> n < 10 \<Longrightarrow> string_of_nat n = string_of_nat (n div 10) @ [char_of (48 + n mod 10)]"
  by (subst string_of_nat.simps) simp

lemma digit_char_inj:
  fixes a b :: nat
  assumes "a < 10" and "b < 10" and "(char_of (48 + a) :: char) = char_of (48 + b)"
  shows "a = b"
proof -
  have "of_char (char_of (48 + a) :: char) = (of_char (char_of (48 + b) :: char) :: nat)"
    using assms(3) by simp
  then have "(48 + a) mod 256 = (48 + b) mod 256"
    by (simp only: of_char_of)
  with assms(1,2) show ?thesis by simp
qed

lemma string_of_nat_inj: "string_of_nat m = string_of_nat n \<Longrightarrow> m = n"
proof (induction m arbitrary: n rule: string_of_nat.induct)
  case (1 m)
  show ?case
  proof (cases "m < 10")
    case True
    show ?thesis
    proof (cases "n < 10")
      case n: True
      from "1.prems" True n
      have "(char_of (48 + m) :: char) = char_of (48 + n)"
        by (simp add: string_of_nat_digit)
      with True n show ?thesis by (rule digit_char_inj)
    next
      case n: False
      from "1.prems" True n length_string_of_nat [of "n div 10"]
      show ?thesis
        using arg_cong [OF "1.prems", of length]
        by (simp add: string_of_nat_digit string_of_nat_step)
    qed
  next
    case False
    show ?thesis
    proof (cases "n < 10")
      case n: True
      from "1.prems" False n length_string_of_nat [of "m div 10"]
      show ?thesis
        using arg_cong [OF "1.prems", of length]
        by (simp add: string_of_nat_digit string_of_nat_step)
    next
      case n: False
      from "1.prems" False n
      have eq: "string_of_nat (m div 10) = string_of_nat (n div 10)"
        and ch: "(char_of (48 + m mod 10) :: char) = char_of (48 + n mod 10)"
        by (simp_all add: string_of_nat_step)
      from "1.IH" [OF False eq] have d: "m div 10 = n div 10" .
      from ch have r: "m mod 10 = n mod 10"
        by (intro digit_char_inj) simp_all
      from d r show ?thesis
        by (metis div_mult_mod_eq)
    qed
  qed
qed

lemma map_string_of_nat_inj: "map string_of_nat p = map string_of_nat q \<Longrightarrow> p = q"
proof (induction p arbitrary: q)
  case Nil
  then show ?case by simp
next
  case (Cons a p)
  then obtain b q' where q: "q = b # q'" by (cases q) auto
  with Cons.prems have "string_of_nat a = string_of_nat b" "map string_of_nat p = map string_of_nat q'"
    by simp_all
  with Cons.IH [of q'] q show ?case by (simp add: string_of_nat_inj)
qed

lemma distinct_checked_paths: "distinct (map fst (map (tag []) (deferred v)))"
proof -
  have eq: "map fst (map (tag []) (deferred v)) = map (map string_of_nat) (map fst (deferred v))"
    by (simp add: tag_def case_prod_beta comp_def)
  have "distinct (map (map string_of_nat) (map fst (deferred v)))"
    by (rule distinct_map [THEN iffD2])
      (rule conjI [OF distinct_deferred], rule inj_onI, rule map_string_of_nat_inj)
  then show ?thesis by (simp only: eq)
qed

lemma concat_map_nil: "(\<And>k. k \<in> set ks \<Longrightarrow> f k = []) \<Longrightarrow> concat (map f ks) = []"
  by (induction ks) simp_all

lemma concat_map_single:
  assumes "i < n" and "f i = [x]" and "\<And>k. k < n \<Longrightarrow> k \<noteq> i \<Longrightarrow> f k = []"
  shows "concat (map f [0..<n]) = [x]"
proof -
  have split: "[0..<n] = [0..<i] @ i # [Suc i..<n]"
    using assms(1) upt_add_eq_append [of 0 i "n - i"] upt_conv_Cons [of i n] by simp
  have a: "concat (map f [0..<i]) = []"
    by (rule concat_map_nil) (use assms in auto)
  have b: "concat (map f [Suc i..<n]) = []"
    by (rule concat_map_nil) (use assms in auto)
  show ?thesis
    by (subst split) (simp add: a b assms(2))
qed

lemma deferred_clean: "\<not> has_deferred v \<Longrightarrow> deferred v = []"
proof (induction v rule: deferred.induct)
  case (1 v)
  show ?case
  proof (cases "isArray v")
    case False
    then show ?thesis by (simp add: deferred_eq)
  next
    case True
    have "deferred_at v k = []" if k: "k \<in> set (keys_of v)" for k
    proof (cases v)
      case (Array xs)
      with k have kl: "k < length xs" by (simp add: keys_of_def)
      then have pg: "property_get v k = Inr (xs ! k)"
        using Array by (simp add: property_get_def raw_get_def)
      have "\<not> has_deferred (xs ! k)"
        using "1.prems" Array kl by (auto simp: list_ex_iff)
      with "1.IH" [OF True k pg] show ?thesis by (simp add: deferred_at_Inr [OF pg])
    next
      case (Res r)
      obtain w xs ns where r: "r = Result w xs ns" by (cases r)
      with k Res have kl: "k < length xs" by (simp add: keys_of_def)
      have ne: "\<not> (w \<and> isError (xs ! k))" and cl: "\<not> has_deferred (xs ! k)"
        using "1.prems" Res r kl by (auto simp: list_ex_iff)
      then have pg: "property_get v k = Inr (xs ! k)"
        using Res r kl by (auto simp: property_get_def Result_index_def raw_get_def Let_def)
      with "1.IH" [OF True k pg] cl show ?thesis by (simp add: deferred_at_Inr [OF pg])
    qed (use True in \<open>simp_all add: isArray_def\<close>)
    then have "concat (map (deferred_at v) (keys_of v)) = []"
      by (rule concat_map_nil)
    with True show ?thesis by (simp add: deferred_eq)
  qed
qed

lemma deferred_single_error:
  assumes "wrap r" and "i < length (items r)" and "isError (items r ! i)"
    and "\<And>j. j < length (items r) \<Longrightarrow> j \<noteq> i \<Longrightarrow>
           \<not> isError (items r ! j) \<and> \<not> has_deferred (items r ! j)"
  shows "deferred (Res r) =
           [([i], throwError (''index '' @ string_of_nat i) (items r ! i))]"
proof -
  have at_i: "deferred_at (Res r) i =
      [([i], throwError (''index '' @ string_of_nat i) (items r ! i))]"
    using assms(1-3)
    by (simp add: deferred_at_def property_get_def Result_index_def raw_get_def Let_def)
  have others: "deferred_at (Res r) k = []" if "k < length (items r)" "k \<noteq> i" for k
  proof -
    from assms(4) [OF that] have ne: "\<not> isError (items r ! k)"
      and cl: "\<not> has_deferred (items r ! k)" by simp_all
    from that(1) ne have pg: "property_get (Res r) k = Inr (items r ! k)"
      by (simp add: property_get_def Result_index_def raw_get_def Let_def)
    from deferred_clean [OF cl] show ?thesis by (simp add: deferred_at_Inr [OF pg])
  qed
  have "concat (map (deferred_at (Res r)) [0..<length (items r)]) =
      [([i], throwError (''index '' @ string_of_nat i) (items r ! i))]"
    using assms(2) at_i others by (rule concat_map_single)
  then show ?thesis by (simp add: deferred_eq isArray_def keys_of_def)
qed

text \<open>
  C9. \<^verbatim>\<open>checkResultErrors\<close> never throws. Its entries are those of the slots whose access
  raises, each with the path of its indices (as the strings \<^verbatim>\<open>for ... in\<close> gives) and the
  error raised, no path twice. For a wrapped \<^verbatim>\<open>Result\<close> whose only captured error is at
  slot \<open>i\<close>, the other slots holding neither an error nor a slot that raises, it returns
  the one entry of path \<open>[i]\<close>.
\<close>

theorem checkResultErrors_sweep:
  "(\<exists>errors. checkResultErrors r = Inr errors \<and> distinct (map fst errors) \<and>
      (\<forall>path e. (path, e) \<in> set errors \<longleftrightarrow>
         (\<exists>p. path = map string_of_nat p \<and> slot_raises (Res r) p e))) \<and>
   (wrap r \<and> i < length (items r) \<and> isError (items r ! i) \<and>
    (\<forall>j<length (items r). j \<noteq> i \<longrightarrow>
       \<not> isError (items r ! j) \<and> \<not> has_deferred (items r ! j)) \<longrightarrow>
    checkResultErrors r =
      Inr [([string_of_nat i], throwError (''index '' @ string_of_nat i) (items r ! i))])"
proof (intro conjI impI)
  let ?errors = "map (tag []) (deferred (Res r))"
  have mem: "(path, e) \<in> set ?errors \<longleftrightarrow>
      (\<exists>p. path = map string_of_nat p \<and> slot_raises (Res r) p e)" for path e
  proof
    assume "(path, e) \<in> set ?errors"
    then obtain p where "(p, e) \<in> set (deferred (Res r))" "path = map string_of_nat p"
      by (auto simp: tag_def)
    then show "\<exists>p. path = map string_of_nat p \<and> slot_raises (Res r) p e"
      by (auto simp: deferred_iff_slot_raises)
  next
    assume "\<exists>p. path = map string_of_nat p \<and> slot_raises (Res r) p e"
    then obtain p where p: "path = map string_of_nat p" "(p, e) \<in> set (deferred (Res r))"
      by (auto simp: deferred_iff_slot_raises)
    then have "tag [] (p, e) \<in> set ?errors" by (simp only: set_map) (rule imageI)
    with p(1) show "(path, e) \<in> set ?errors" by (simp add: tag_def)
  qed
  show "\<exists>errors. checkResultErrors r = Inr errors \<and> distinct (map fst errors) \<and>
      (\<forall>path e. (path, e) \<in> set errors \<longleftrightarrow>
         (\<exists>p. path = map string_of_nat p \<and> slot_raises (Res r) p e))"
    using checkResultErrors_deferred [of r] distinct_checked_paths [of "Res r"] mem
    by blast
next
  assume h: "wrap r \<and> i < length (items r) \<and> isError (items r ! i) \<and>
    (\<forall>j<length (items r). j \<noteq> i \<longrightarrow>
       \<not> isError (items r ! j) \<and> \<not> has_deferred (items r ! j))"
  then have "deferred (Res r) =
      [([i], throwError (''index '' @ string_of_nat i) (items r ! i))]"
    by (intro deferred_single_error) simp_all
  then show "checkResultErrors r =
      Inr [([string_of_nat i], throwError (''index '' @ string_of_nat i) (items r ! i))]"
    by (simp add: checkResultErrors_deferred tag_def)
qed

theorem checkResultErrors_sweep_witness:
  "checkResultErrors (fromItems [Num 1, Error ''boom'' Undefined, Res (fromItems [Num 2] [])]
      [Some ''a'', Some ''b'', Some ''c'']) =
     Inr [([''1''], Error ''deferred error during ABI decoding triggered accessing index 1''
                     (Error ''boom'' Undefined))]"
proof -
  let ?its = "[Num 1, Error ''boom'' Undefined, Res (fromItems [Num 2] [])]"
  let ?r = "fromItems ?its [Some ''a'', Some ''b'', Some ''c'']"
  have clean: "\<not> has_deferred (Res (fromItems [Num 2] []))"
    by (simp add: fromItems_def Result_new_def isError_def)
  have h: "wrap ?r \<and> 1 < length (items ?r) \<and> isError (items ?r ! 1) \<and>
      (\<forall>j<length (items ?r). j \<noteq> 1 \<longrightarrow>
         \<not> isError (items ?r ! j) \<and> \<not> has_deferred (items ?r ! j))"
    using clean by (auto simp: isError_def less_Suc_eq numeral_3_eq_3)
  from checkResultErrors_sweep [of ?r 1, THEN conjunct2, THEN mp, OF h] show ?thesis
    by (simp add: throwError_def string_of_nat_1 string_of_nat_Suc_0)
qed

end
